theory Spec2Isabelle
  imports Main "HOL-Library.Char_ord" "HOL-Library.List_Lexorder" "HOL-Library.Multiset"
begin

section \<open>Strings and characters\<close>

text \<open>
  The module \<^verbatim>\<open>graphviz/lang.py\<close> works on Python strings. A string is modelled as a
  \<^typ>\<open>string\<close>, one \<^typ>\<open>char\<close> per code point, so the model covers the strings whose
  code points are below 256. On these the class \<^verbatim>\<open>\d\<close> is exactly \<^verbatim>\<open>[0-9]\<close> and
  case-insensitive comparison of an ASCII letter is ASCII case folding. The order on
  \<^typ>\<open>char\<close> is the order of the code points and the order on strings is the
  lexicographic one, as for Python's \<^verbatim>\<open>str\<close>.
\<close>

abbreviation DQUOTE :: char where "DQUOTE \<equiv> CHR 0x22"
abbreviation BACKSLASH :: char where "BACKSLASH \<equiv> CHR 0x5C"
abbreviation NEWLINE :: char where "NEWLINE \<equiv> CHR 0x0A"

definition lower :: "char \<Rightarrow> char" where
  "lower c = (if CHR ''A'' \<le> c \<and> c \<le> CHR ''Z'' then char_of (of_char c + (32::nat)) else c)"

section \<open>The regular expressions of the module\<close>

text \<open>
  The module compiles three patterns with Python's \<^verbatim>\<open>re\<close> and only ever asks whether
  \<^verbatim>\<open>pattern.match(s)\<close> finds a match. The constructs the patterns use are modelled:
  literals, \<^verbatim>\<open>.\<close>, bracket classes with ranges, \<^verbatim>\<open>\d\<close>, sequence, \<^verbatim>\<open>|\<close>, \<^verbatim>\<open>?\<close>, \<^verbatim>\<open>*\<close>,
  \<^verbatim>\<open>+\<close> and \<^verbatim>\<open>$\<close>, under the flags \<^verbatim>\<open>re.IGNORECASE\<close> and \<^verbatim>\<open>re.DOTALL\<close>. Groups only
  record positions and are left out.
\<close>

datatype citem = Ch char | Rng char char | Digit

datatype rx =
    Eps
  | Lit char
  | Dot
  | Cls "citem list"
  | Dollar
  | Seq rx rx
  | Alt rx rx
  | Opt rx
  | Star rx

record flags =
  ignorecase :: bool
  dotall :: bool

definition no_flags :: flags where
  "no_flags = \<lparr>ignorecase = False, dotall = False\<rparr>"

definition IGNORECASE :: flags where
  "IGNORECASE = \<lparr>ignorecase = True, dotall = False\<rparr>"

definition DOTALL :: flags where
  "DOTALL = \<lparr>ignorecase = False, dotall = True\<rparr>"

fun citem_has :: "citem \<Rightarrow> char \<Rightarrow> bool" where
  "citem_has (Ch c) x = (x = c)"
| "citem_has (Rng lo hi) x = (lo \<le> x \<and> x \<le> hi)"
| "citem_has Digit x = (CHR ''0'' \<le> x \<and> x \<le> CHR ''9'')"

definition upper :: "char \<Rightarrow> char" where
  "upper c = (if CHR ''a'' \<le> c \<and> c \<le> CHR ''z'' then char_of (of_char c - (32::nat)) else c)"

definition lit_eq :: "flags \<Rightarrow> char \<Rightarrow> char \<Rightarrow> bool" where
  "lit_eq fl c x = (if ignorecase fl then lower x = lower c else x = c)"

definition cls_has :: "flags \<Rightarrow> citem list \<Rightarrow> char \<Rightarrow> bool" where
  "cls_has fl items x =
     (if ignorecase fl
      then list_ex (\<lambda>i. citem_has i x \<or> citem_has i (lower x) \<or> citem_has i (upper x)) items
      else list_ex (\<lambda>i. citem_has i x) items)"

definition dot_has :: "flags \<Rightarrow> char \<Rightarrow> bool" where
  "dot_has fl x = (dotall fl \<or> x \<noteq> NEWLINE)"

definition at_dollar :: "string \<Rightarrow> bool" where
  \<comment> \<open>\<^verbatim>\<open>$\<close> without \<^verbatim>\<open>re.MULTILINE\<close>: at the end of the string, and also just before a
      newline that is the last character of the string.\<close>
  "at_dollar s = (s = [] \<or> s = [NEWLINE])"

text \<open>
  \<open>rem fl r s\<close> lists what is left of \<open>s\<close> after each way \<open>r\<close> can match at its start,
  the ways in the order in which a backtracking matcher tries them.
\<close>

fun rem :: "flags \<Rightarrow> rx \<Rightarrow> string \<Rightarrow> string list" where
  "rem fl Eps s = [s]"
| "rem fl (Lit c) s = (case s of [] \<Rightarrow> [] | x # t \<Rightarrow> if lit_eq fl c x then [t] else [])"
| "rem fl Dot s = (case s of [] \<Rightarrow> [] | x # t \<Rightarrow> if dot_has fl x then [t] else [])"
| "rem fl (Cls items) s = (case s of [] \<Rightarrow> [] | x # t \<Rightarrow> if cls_has fl items x then [t] else [])"
| "rem fl Dollar s = (if at_dollar s then [s] else [])"
| "rem fl (Seq a b) s = concat (map (rem fl b) (rem fl a s))"
| "rem fl (Alt a b) s = rem fl a s @ rem fl b s"
| "rem fl (Opt a) s = rem fl a s @ [s]"
| "rem fl (Star a) s =
     concat (map (rem fl (Star a)) (filter (\<lambda>t. length t < length s) (rem fl a s))) @ [s]"

definition Plus :: "rx \<Rightarrow> rx" where
  "Plus a = Seq a (Star a)"

fun Str :: "string \<Rightarrow> rx" where
  "Str [] = Eps"
| "Str (c # cs) = Seq (Lit c) (Str cs)"

definition re_match :: "flags \<Rightarrow> rx \<Rightarrow> string \<Rightarrow> bool" where
  \<comment> \<open>the truth value of \<^verbatim>\<open>re.compile(r, flags).match(s)\<close>\<close>
  "re_match fl r s = (rem fl r s \<noteq> [])"

definition fullmatch :: "flags \<Rightarrow> rx \<Rightarrow> string \<Rightarrow> bool" where
  \<comment> \<open>the whole of \<open>s\<close> is a word of the pattern\<close>
  "fullmatch fl r s = ([] \<in> set (rem fl r s))"

text \<open>
  The characters a pattern can match at all; a device of the proofs below, which bound
  what a match has read.
\<close>

fun consumes :: "flags \<Rightarrow> rx \<Rightarrow> char \<Rightarrow> bool" where
  "consumes fl Eps x = False"
| "consumes fl (Lit c) x = lit_eq fl c x"
| "consumes fl Dot x = dot_has fl x"
| "consumes fl (Cls items) x = cls_has fl items x"
| "consumes fl Dollar x = False"
| "consumes fl (Seq a b) x = (consumes fl a x \<or> consumes fl b x)"
| "consumes fl (Alt a b) x = (consumes fl a x \<or> consumes fl b x)"
| "consumes fl (Opt a) x = consumes fl a x"
| "consumes fl (Star a) x = consumes fl a x"

definition ident_rx :: rx where
  \<comment> \<open>\<^verbatim>\<open>[a-zA-Z_][a-zA-Z0-9_]*\<close>\<close>
  "ident_rx =
     Seq (Cls [Rng (CHR ''a'') (CHR ''z''), Rng (CHR ''A'') (CHR ''Z''), Ch (CHR ''_'')])
         (Star (Cls [Rng (CHR ''a'') (CHR ''z''), Rng (CHR ''A'') (CHR ''Z''),
                     Rng (CHR ''0'') (CHR ''9''), Ch (CHR ''_'')]))"

definition unsigned_rx :: rx where
  \<comment> \<open>\<^verbatim>\<open>(\.\d+|\d+(\.\d*)?)\<close>\<close>
  "unsigned_rx =
     Alt (Seq (Lit (CHR ''.'')) (Plus (Cls [Digit])))
         (Seq (Plus (Cls [Digit])) (Opt (Seq (Lit (CHR ''.'')) (Star (Cls [Digit])))))"

definition numeral_rx :: rx where
  \<comment> \<open>\<^verbatim>\<open>-?(\.\d+|\d+(\.\d*)?)\<close>\<close>
  "numeral_rx = Seq (Opt (Lit (CHR ''-''))) unsigned_rx"

definition bare_rx :: rx where
  \<comment> \<open>\<^verbatim>\<open>([a-zA-Z_][a-zA-Z0-9_]*|-?(\.\d+|\d+(\.\d*)?))\<close>\<close>
  "bare_rx = Alt ident_rx numeral_rx"

definition ID :: rx where
  \<comment> \<open>\<^verbatim>\<open>([a-zA-Z_][a-zA-Z0-9_]*|-?(\.\d+|\d+(\.\d*)?))$\<close>\<close>
  "ID = Seq bare_rx Dollar"

definition keyword_rx :: rx where
  \<comment> \<open>\<^verbatim>\<open>((node)|(edge)|(graph)|(digraph)|(subgraph)|(strict))\<close>\<close>
  "keyword_rx =
     Alt (Str ''node'') (Alt (Str ''edge'') (Alt (Str ''graph'')
       (Alt (Str ''digraph'') (Alt (Str ''subgraph'') (Str ''strict'')))))"

definition KEYWORD :: rx where
  \<comment> \<open>\<^verbatim>\<open>((node)|(edge)|(graph)|(digraph)|(subgraph)|(strict))$\<close>, with \<^verbatim>\<open>re.IGNORECASE\<close>\<close>
  "KEYWORD = Seq keyword_rx Dollar"

definition HTML_STRING :: rx where
  \<comment> \<open>\<^verbatim>\<open><.*>$\<close>, with \<^verbatim>\<open>re.DOTALL\<close>\<close>
  "HTML_STRING = Seq (Lit (CHR ''<'')) (Seq (Star Dot) (Seq (Lit (CHR ''>'')) Dollar))"

section \<open>quote\<close>

definition valid_id :: "string \<Rightarrow> bool" where
  "valid_id = re_match no_flags ID"

definition dot_keyword :: "string \<Rightarrow> bool" where
  "dot_keyword = re_match IGNORECASE KEYWORD"

definition html :: "string \<Rightarrow> bool" where
  "html = re_match DOTALL HTML_STRING"

fun replace_dquote :: "string \<Rightarrow> string" where
  \<comment> \<open>\<^verbatim>\<open>identifier.replace('"', '\\"')\<close>\<close>
  "replace_dquote [] = []"
| "replace_dquote (c # cs) =
     (if c = DQUOTE then BACKSLASH # DQUOTE # replace_dquote cs else c # replace_dquote cs)"

definition quote :: "string \<Rightarrow> string" where
  "quote identifier =
     (if html identifier then identifier
      else if \<not> valid_id identifier \<or> dot_keyword identifier
        then [DQUOTE] @ replace_dquote identifier @ [DQUOTE]
      else identifier)"

section \<open>quote_edge\<close>

fun partition :: "char \<Rightarrow> string \<Rightarrow> string \<times> string \<times> string" where
  \<comment> \<open>\<^verbatim>\<open>s.partition(sep)\<close> for a separator of one character: the part before the first
      separator, the separator and the part after it; the string and two empty strings
      when there is none.\<close>
  "partition sep [] = ([], [], [])"
| "partition sep (c # cs) =
     (if c = sep then ([], [sep], cs)
      else (case partition sep cs of (before, found, after) \<Rightarrow> (c # before, found, after)))"

fun join :: "string \<Rightarrow> string list \<Rightarrow> string" where
  \<comment> \<open>\<^verbatim>\<open>sep.join(parts)\<close>\<close>
  "join sep [] = []"
| "join sep [p] = p"
| "join sep (p # q # ps) = p @ sep @ join sep (q # ps)"

definition quote_edge :: "string \<Rightarrow> string" where
  "quote_edge identifier =
     (case partition (CHR '':'') identifier of (node, _, rest) \<Rightarrow>
        let parts = [quote node];
            parts = (if rest \<noteq> [] then
                       (case partition (CHR '':'') rest of (port, _, compass) \<Rightarrow>
                          let parts = parts @ [quote port]
                          in if compass \<noteq> [] then parts @ [compass] else parts)
                     else parts)
        in join '':'' parts)"

section \<open>a_list and attr_list\<close>

text \<open>
  A value of a mapping is a string or \<^verbatim>\<open>None\<close>. A \<^verbatim>\<open>dict\<close> is the list of its items in
  iteration order; its keys are distinct. The argument \<^verbatim>\<open>attributes\<close> is a mapping (it has
  \<^verbatim>\<open>items\<close>) or a sequence of pairs. An argument left at its default is \<open>None\<close>.
\<close>

type_synonym pyitems = "(string \<times> string option) list"

datatype attributes = Mapping pyitems | Pairs pyitems

definition mapping_items :: "pyitems \<Rightarrow> pyitems" where
  \<comment> \<open>Modelled from the spec: \<^verbatim>\<open>tools.mapping_items\<close> is imported from a module of the
      package that is not among the sources. The spec has the pairs of an unordered
      mapping sorted by key before they are emitted.\<close>
  "mapping_items m = sort_key fst m"

definition truthy :: "'a list \<Rightarrow> bool" where
  \<comment> \<open>the truth value of a container: it is not empty\<close>
  "truthy xs = (xs \<noteq> [])"

definition item_tokens :: "pyitems \<Rightarrow> string list" where
  \<comment> \<open>\<^verbatim>\<open>['%s=%s' % (quote(k), quote(v)) for k, v in items if v is not None]\<close>\<close>
  "item_tokens items =
     concat (map (\<lambda>(k, v). case v of None \<Rightarrow> [] | Some w \<Rightarrow> [quote k @ ''='' @ quote w]) items)"

definition a_list :: "string option \<Rightarrow> pyitems option \<Rightarrow> attributes option \<Rightarrow> string" where
  "a_list label kwargs attributes =
     (let result = (case label of Some l \<Rightarrow> [''label='' @ quote l] | None \<Rightarrow> []);
          result = (case kwargs of
                      Some kw \<Rightarrow> if truthy kw then result @ item_tokens (mapping_items kw) else result
                    | None \<Rightarrow> result);
          result = (case attributes of
                      Some (Mapping m) \<Rightarrow>
                        if truthy m then result @ item_tokens (mapping_items m) else result
                    | Some (Pairs ps) \<Rightarrow>
                        if truthy ps then result @ item_tokens ps else result
                    | None \<Rightarrow> result)
      in join '' '' result)"

definition attr_list :: "string option \<Rightarrow> pyitems option \<Rightarrow> attributes option \<Rightarrow> string" where
  "attr_list label kwargs attributes =
     (let content = a_list label kwargs attributes
      in if content = [] then [] else '' ['' @ content @ '']'')"

section \<open>Notions of the specification\<close>

text \<open>
  The specification speaks of the bare-identifier grammar, of reserved words, of
  HTML-like labels and of the quoted form of a string. These are written down here
  independently of \<open>quote\<close>, which is then compared with them.
\<close>

definition bare_identifier :: "string \<Rightarrow> bool" where
  \<comment> \<open>the whole string is a word of \<^verbatim>\<open>[A-Za-z_][A-Za-z0-9_]*\<close> or of
      \<^verbatim>\<open>-?(\.\d+|\d+(\.\d*)?)\<close>\<close>
  "bare_identifier s = (fullmatch no_flags ident_rx s \<or> fullmatch no_flags numeral_rx s)"

definition ident_start :: "char \<Rightarrow> bool" where
  \<comment> \<open>a letter or the underscore\<close>
  "ident_start x =
     (CHR ''a'' \<le> x \<and> x \<le> CHR ''z'' \<or> CHR ''A'' \<le> x \<and> x \<le> CHR ''Z'' \<or> x = CHR ''_'')"

definition is_digit :: "char \<Rightarrow> bool" where
  "is_digit x = (CHR ''0'' \<le> x \<and> x \<le> CHR ''9'')"

definition ident_char :: "char \<Rightarrow> bool" where
  \<comment> \<open>a letter, the underscore or a digit\<close>
  "ident_char x = (ident_start x \<or> is_digit x)"

definition reserved_words :: "string list" where
  "reserved_words = [''node'', ''edge'', ''graph'', ''digraph'', ''subgraph'', ''strict'']"

definition reserved_word :: "string \<Rightarrow> bool" where
  \<comment> \<open>equal to one of the reserved words when the case of the letters is ignored\<close>
  "reserved_word s = (map lower s \<in> set reserved_words)"

definition html_like :: "string \<Rightarrow> bool" where
  \<comment> \<open>starts with \<^verbatim>\<open><\<close> and ends with \<^verbatim>\<open>>\<close>\<close>
  "html_like s = (s \<noteq> [] \<and> hd s = CHR ''<'' \<and> last s = CHR ''>'')"

definition escaped :: "string \<Rightarrow> string" where
  \<comment> \<open>every double quote prefixed by a backslash, no other character altered\<close>
  "escaped s = concat (map (\<lambda>c. if c = DQUOTE then [BACKSLASH, DQUOTE] else [c]) s)"

definition dquoted :: "string \<Rightarrow> string" where
  "dquoted s = [DQUOTE] @ escaped s @ [DQUOTE]"

fun unescape :: "string \<Rightarrow> string" where
  \<comment> \<open>undoes the escaping: every backslash followed by a double quote becomes the
      double quote\<close>
  "unescape [] = []"
| "unescape [c] = [c]"
| "unescape (c # d # cs) =
     (if c = BACKSLASH \<and> d = DQUOTE then DQUOTE # unescape cs else c # unescape (d # cs))"

definition quoted_form :: "string \<Rightarrow> bool" where
  "quoted_form token = (2 \<le> length token \<and> hd token = DQUOTE \<and> last token = DQUOTE)"

definition reparse :: "string \<Rightarrow> string option" where
  \<comment> \<open>the content of a token: of a quoted form, what is between the surrounding double
      quotes with the escaping undone; of a bare identifier, a numeral or an HTML-like
      label, the token itself; any other text is no token\<close>
  "reparse token =
     (if quoted_form token then Some (unescape (butlast (tl token)))
      else if bare_identifier token \<or> html_like token then Some token
      else None)"


section \<open>Facts about the matcher\<close>

text \<open>
  The equation of \<open>rem\<close> for \<open>Star\<close> mentions \<open>rem\<close> on \<open>Star\<close> again: it is taken out
  of the simplifier's rules and used through \<open>set_rem_Star\<close>.
\<close>

declare rem.simps(9) [simp del]

lemma set_rem_Star:
  "set (rem fl (Star a) s) =
     insert s (\<Union>m \<in> {m \<in> set (rem fl a s). length m < length s}. set (rem fl (Star a) m))"
  by (subst rem.simps(9)) auto

lemma set_rem_Lit: "set (rem fl (Lit c) s) = {t. \<exists>x. s = x # t \<and> lit_eq fl c x}"
  by (auto split: list.splits)

text \<open>
  Whatever a pattern leaves is a suffix of the string, and the prefix it has read is made
  of characters the pattern can match.
\<close>

lemma rem_consumed:
  "t \<in> set (rem fl r s) \<Longrightarrow> \<exists>u. s = u @ t \<and> list_all (consumes fl r) u"
proof (induction fl r s arbitrary: t rule: rem.induct)
  case (6 fl a b s)
  from "6.prems" obtain m where m: "m \<in> set (rem fl a s)" and t: "t \<in> set (rem fl b m)"
    by auto
  from "6.IH"(1)[OF m] obtain u1 where u1: "s = u1 @ m" "list_all (consumes fl a) u1"
    by blast
  from "6.IH"(2)[OF m t] obtain u2 where u2: "m = u2 @ t" "list_all (consumes fl b) u2"
    by blast
  have "s = (u1 @ u2) @ t" using u1 u2 by simp
  moreover have "list_all (consumes fl (Seq a b)) (u1 @ u2)"
    using u1(2) u2(2) by (auto simp: list_all_iff)
  ultimately show ?case by blast
next
  case (7 fl a b s)
  from "7.prems" have "t \<in> set (rem fl a s) \<or> t \<in> set (rem fl b s)" by simp
  then obtain u where "s = u @ t" "list_all (consumes fl a) u \<or> list_all (consumes fl b) u"
    using "7.IH" by blast
  then show ?case by (auto simp: list_all_iff)
next
  case (8 fl a s)
  show ?case
  proof (cases "t = s")
    case True
    then show ?thesis by (intro exI[of _ "[]"]) simp
  next
    case False
    with "8.prems" have "t \<in> set (rem fl a s)" by simp
    then show ?thesis using "8.IH" by simp
  qed
next
  case (9 fl a s)
  show ?case
  proof (cases "t = s")
    case True
    then show ?thesis by (intro exI[of _ "[]"]) simp
  next
    case False
    with "9.prems" obtain m where m: "m \<in> set (rem fl a s)" "length m < length s"
      and t: "t \<in> set (rem fl (Star a) m)"
      by (auto simp: set_rem_Star[of fl a s])
    from "9.IH"(1)[OF m(1)] obtain u1 where u1: "s = u1 @ m" "list_all (consumes fl a) u1"
      by blast
    have "m \<in> set (filter (\<lambda>t. length t < length s) (rem fl a s))" using m by simp
    from "9.IH"(2)[OF this t] obtain u2 where u2: "m = u2 @ t" "list_all (consumes fl (Star a)) u2"
      by blast
    have "s = (u1 @ u2) @ t" using u1 u2 by simp
    moreover have "list_all (consumes fl (Star a)) (u1 @ u2)"
      using u1(2) u2(2) by (auto simp: list_all_iff)
    ultimately show ?thesis by blast
  qed
qed (auto split: list.splits if_splits)

lemma re_match_Dollar:
  "re_match fl (Seq g Dollar) s \<longleftrightarrow> (\<exists>t \<in> set (rem fl g s). at_dollar t)"
  by (auto simp: re_match_def)

text \<open>Some matches, as Python's \<^verbatim>\<open>re\<close> finds them.\<close>

lemma match_examples:
  "valid_id ''spam''" "valid_id ''4.''" "valid_id ''-.5''" "valid_id ''Node''"
  "\<not> valid_id ''-''" "\<not> valid_id ''.''" "\<not> valid_id ''1.2.3''" "\<not> valid_id ''1a''"
  "\<not> valid_id ''spam spam''" "\<not> valid_id []"
  "valid_id (''spam'' @ [NEWLINE])" "\<not> valid_id (''spam'' @ [NEWLINE, NEWLINE])"
  "\<not> valid_id (''spam'' @ [NEWLINE] @ ''x'')"
  "dot_keyword ''Node''" "dot_keyword ''STRICT''" "\<not> dot_keyword ''nodes''"
  "dot_keyword (''node'' @ [NEWLINE])"
  "html ''<>''" "html (''<'' @ [NEWLINE] @ ''>'')" "html (''<b>'' @ [NEWLINE])"
  "\<not> html ''<b''" "\<not> html ''b>''"
  by code_simp+

subsection \<open>The pattern ID\<close>

lemma set_rem_Cls:
  "set (rem fl (Cls items) s) = {t. \<exists>x. s = x # t \<and> cls_has fl items x}"
  by (auto split: list.splits)

lemma set_rem_Star_Cls:
  "set (rem fl (Star (Cls items)) s) = {t. \<exists>u. s = u @ t \<and> list_all (cls_has fl items) u}"
proof (induction s)
  case Nil
  show ?case by (subst set_rem_Star) auto
next
  case (Cons x s)
  show ?case
  proof (cases "cls_has fl items x")
    case True
    have "set (rem fl (Star (Cls items)) (x # s)) = insert (x # s) (set (rem fl (Star (Cls items)) s))"
      using True by (subst set_rem_Star) auto
    also have "\<dots> = {t. \<exists>u. x # s = u @ t \<and> list_all (cls_has fl items) u}"
      using True unfolding Cons.IH by (auto simp: Cons_eq_append_conv)
    finally show ?thesis .
  next
    case False
    have "set (rem fl (Star (Cls items)) (x # s)) = {x # s}"
      using False by (subst set_rem_Star) auto
    also have "\<dots> = {t. \<exists>u. x # s = u @ t \<and> list_all (cls_has fl items) u}"
      using False by (auto simp: Cons_eq_append_conv)
    finally show ?thesis .
  qed
qed

lemma fullmatch_ident_rx:
  "fullmatch no_flags ident_rx s \<longleftrightarrow>
     (\<exists>c cs. s = c # cs \<and> ident_start c \<and> list_all ident_char cs)"
proof -
  have a: "\<And>x. cls_has no_flags [Rng (CHR ''a'') (CHR ''z''), Rng (CHR ''A'') (CHR ''Z''), Ch (CHR ''_'')] x
             = ident_start x"
    by (auto simp: cls_has_def no_flags_def ident_start_def)
  have b: "\<And>x. cls_has no_flags [Rng (CHR ''a'') (CHR ''z''), Rng (CHR ''A'') (CHR ''Z''),
                     Rng (CHR ''0'') (CHR ''9''), Ch (CHR ''_'')] x = ident_char x"
    by (auto simp: cls_has_def no_flags_def ident_start_def ident_char_def is_digit_def)
  have b': "cls_has no_flags [Rng (CHR ''a'') (CHR ''z''), Rng (CHR ''A'') (CHR ''Z''),
                     Rng (CHR ''0'') (CHR ''9''), Ch (CHR ''_'')] = ident_char"
    using b by auto
  show ?thesis
    unfolding fullmatch_def ident_rx_def rem.simps(6) set_concat set_map
    by (auto simp: set_rem_Cls set_rem_Star_Cls a b')
qed

lemma set_rem_Plus_Cls:
  "set (rem fl (Plus (Cls items)) s) =
     {t. \<exists>u. u \<noteq> [] \<and> s = u @ t \<and> list_all (cls_has fl items) u}"
proof (intro set_eqI iffI)
  fix t assume "t \<in> set (rem fl (Plus (Cls items)) s)"
  then obtain x m u where "s = x # m" "cls_has fl items x" "m = u @ t" "list_all (cls_has fl items) u"
    by (auto simp: Plus_def set_rem_Cls set_rem_Star_Cls)
  then have "x # u \<noteq> [] \<and> s = (x # u) @ t \<and> list_all (cls_has fl items) (x # u)" by simp
  then show "t \<in> {t. \<exists>u. u \<noteq> [] \<and> s = u @ t \<and> list_all (cls_has fl items) u}" by blast
next
  fix t assume "t \<in> {t. \<exists>u. u \<noteq> [] \<and> s = u @ t \<and> list_all (cls_has fl items) u}"
  then obtain x u where "s = (x # u) @ t" "list_all (cls_has fl items) (x # u)"
    by (auto simp: neq_Nil_conv)
  then show "t \<in> set (rem fl (Plus (Cls items)) s)"
    by (auto simp: Plus_def set_rem_Cls set_rem_Star_Cls)
qed

lemma cls_has_Digit: "cls_has no_flags [Digit] = is_digit"
  by (auto simp: cls_has_def no_flags_def is_digit_def)

lemma lit_eq_no_flags: "lit_eq no_flags c x \<longleftrightarrow> x = c"
  by (simp add: lit_eq_def no_flags_def)

lemma set_rem_unsigned:
  "t \<in> set (rem no_flags unsigned_rx s)
   \<longleftrightarrow> (\<exists>ds es. ds \<noteq> [] \<and> list_all is_digit ds \<and> list_all is_digit es \<and>
          (s = ''.'' @ ds @ t \<or> s = ds @ t \<or> s = ds @ ''.'' @ es @ t))"
  (is "?L \<longleftrightarrow> ?R")
proof
  assume ?L
  then consider
      ds where "s = ''.'' @ ds @ t" "ds \<noteq> []" "list_all is_digit ds"
    | ds where "s = ds @ t" "ds \<noteq> []" "list_all is_digit ds"
    | ds es where "s = ds @ ''.'' @ es @ t" "ds \<noteq> []" "list_all is_digit ds" "list_all is_digit es"
    unfolding unsigned_rx_def rem.simps(6,7,8) set_append set_concat set_map
    by (auto simp: set_rem_Lit set_rem_Plus_Cls set_rem_Star_Cls cls_has_Digit lit_eq_no_flags)
  then show ?R
  proof cases
    case 1
    then show ?thesis by (intro exI[of _ ds] exI[of _ "[]"]) simp
  next
    case 2
    then show ?thesis by (intro exI[of _ ds] exI[of _ "[]"]) simp
  next
    case 3
    then show ?thesis by (intro exI[of _ ds] exI[of _ es]) simp
  qed
next
  assume ?R
  then obtain ds es where d: "ds \<noteq> []" "list_all is_digit ds" "list_all is_digit es"
    and c: "s = ''.'' @ ds @ t \<or> s = ds @ t \<or> s = ds @ ''.'' @ es @ t" by blast
  from c show ?L
    unfolding unsigned_rx_def rem.simps(6,7,8) set_append set_concat set_map
    using d
    by (auto simp: set_rem_Lit set_rem_Plus_Cls set_rem_Star_Cls cls_has_Digit lit_eq_no_flags)
qed

lemma fullmatch_numeral_rx:
  "fullmatch no_flags numeral_rx s \<longleftrightarrow>
     (\<exists>sign ds es. (sign = [] \<or> sign = ''-'') \<and> ds \<noteq> [] \<and>
        list_all is_digit ds \<and> list_all is_digit es \<and>
        (s = sign @ ''.'' @ ds \<or> s = sign @ ds \<or> s = sign @ ds @ ''.'' @ es))"
  (is "?L \<longleftrightarrow> ?R")
proof
  assume ?L
  then obtain m where m: "m = s \<or> s = CHR ''-'' # m"
    and u: "\<exists>ds es. ds \<noteq> [] \<and> list_all is_digit ds \<and> list_all is_digit es \<and>
          (m = ''.'' @ ds @ [] \<or> m = ds @ [] \<or> m = ds @ ''.'' @ es @ [])"
    unfolding fullmatch_def numeral_rx_def rem.simps(6) set_concat set_map
    by (auto simp: set_rem_unsigned set_rem_Lit lit_eq_no_flags)
  then obtain ds es where d: "ds \<noteq> []" "list_all is_digit ds" "list_all is_digit es"
    "m = ''.'' @ ds \<or> m = ds \<or> m = ds @ ''.'' @ es" by auto
  from m show ?R
  proof
    assume "m = s"
    with d show ?thesis by (intro exI[of _ "[]"] exI[of _ ds] exI[of _ es]) simp
  next
    assume "s = CHR ''-'' # m"
    with d show ?thesis by (intro exI[of _ "''-''"] exI[of _ ds] exI[of _ es]) auto
  qed
next
  assume ?R
  then obtain sign ds es where sg: "sign = [] \<or> sign = ''-''"
    and d: "ds \<noteq> []" "list_all is_digit ds" "list_all is_digit es"
    and c: "s = sign @ ''.'' @ ds \<or> s = sign @ ds \<or> s = sign @ ds @ ''.'' @ es" by blast
  define m where "m = drop (length sign) s"
  from c have s: "s = sign @ m" by (auto simp: m_def)
  with c have "m = ''.'' @ ds @ [] \<or> m = ds @ [] \<or> m = ds @ ''.'' @ es @ []" by auto
  with d have u: "[] \<in> set (rem no_flags unsigned_rx m)"
    unfolding set_rem_unsigned by blast
  from sg have "m \<in> set (rem no_flags (Opt (Lit (CHR ''-''))) s)"
    using s by (auto simp: set_rem_Lit lit_eq_no_flags)
  with u show ?L
    unfolding fullmatch_def numeral_rx_def rem.simps(6) set_concat set_map
    by blast
qed

text \<open>The bare-identifier grammar, read without the matcher.\<close>

lemma bare_identifier_iff:
  "bare_identifier s \<longleftrightarrow>
     (\<exists>c cs. s = c # cs \<and> ident_start c \<and> list_all ident_char cs) \<or>
     (\<exists>sign ds es. (sign = [] \<or> sign = ''-'') \<and> ds \<noteq> [] \<and>
        list_all is_digit ds \<and> list_all is_digit es \<and>
        (s = sign @ ''.'' @ ds \<or> s = sign @ ds \<or> s = sign @ ds @ ''.'' @ es))"
  unfolding bare_identifier_def fullmatch_ident_rx fullmatch_numeral_rx ..

lemma bare_identifier_fullmatch: "bare_identifier s \<longleftrightarrow> fullmatch no_flags bare_rx s"
  by (auto simp: bare_identifier_def fullmatch_def bare_rx_def)

lemma valid_id_iff: "valid_id s \<longleftrightarrow> (\<exists>t \<in> set (rem no_flags bare_rx s). at_dollar t)"
  by (simp add: valid_id_def ID_def re_match_Dollar)

lemma bare_identifier_valid_id: "bare_identifier s \<Longrightarrow> valid_id s"
  unfolding valid_id_iff bare_identifier_fullmatch fullmatch_def
  by (rule bexI[of _ "[]"]) (simp_all add: at_dollar_def)

lemma bare_rx_empty: "rem no_flags bare_rx [] = []"
  by code_simp

lemma bare_rx_newline: "rem no_flags bare_rx [NEWLINE] = []"
  by code_simp

lemma consumes_bare_rx:
  "consumes no_flags bare_rx x \<longleftrightarrow>
     CHR ''a'' \<le> x \<and> x \<le> CHR ''z'' \<or> CHR ''A'' \<le> x \<and> x \<le> CHR ''Z'' \<or>
     CHR ''0'' \<le> x \<and> x \<le> CHR ''9'' \<or> x = CHR ''_'' \<or> x = CHR ''-'' \<or> x = CHR ''.''"
  by (auto simp: bare_rx_def ident_rx_def numeral_rx_def unsigned_rx_def Plus_def cls_has_def
        lit_eq_def no_flags_def)

lemma not_consumed:
  "\<not> consumes no_flags bare_rx DQUOTE"
  "\<not> consumes no_flags bare_rx (CHR ''<'')"
  "\<not> consumes no_flags bare_rx NEWLINE"
  by (simp_all add: consumes_bare_rx)

lemma valid_id_first:
  assumes "valid_id s"
  shows "s \<noteq> [] \<and> consumes no_flags bare_rx (hd s)"
proof -
  from assms obtain t where t: "t \<in> set (rem no_flags bare_rx s)" "at_dollar t"
    by (auto simp: valid_id_iff)
  from rem_consumed[OF t(1)] obtain u where u: "s = u @ t" "list_all (consumes no_flags bare_rx) u"
    by blast
  have "u \<noteq> []"
  proof
    assume "u = []"
    with u t have "t \<in> set (rem no_flags bare_rx t)" by simp
    with t(2) show False by (auto simp: at_dollar_def bare_rx_empty bare_rx_newline)
  qed
  with u show ?thesis by (cases u) auto
qed

lemma valid_id_no_newline:
  assumes "valid_id s" and "last s \<noteq> NEWLINE"
  shows "bare_identifier s"
proof -
  from assms(1) obtain t where t: "t \<in> set (rem no_flags bare_rx s)" "at_dollar t"
    by (auto simp: valid_id_iff)
  from rem_consumed[OF t(1)] obtain u where "s = u @ t" by blast
  with assms(2) t(2) have "t = []" by (auto simp: at_dollar_def)
  with t(1) show ?thesis by (simp add: bare_identifier_fullmatch fullmatch_def)
qed

lemma bare_identifier_chars:
  assumes "bare_identifier s"
  shows "list_all (consumes no_flags bare_rx) s"
  using rem_consumed[of "[]" no_flags bare_rx s] assms
  by (auto simp: bare_identifier_fullmatch fullmatch_def)

lemma bare_identifier_nonempty: "bare_identifier s \<Longrightarrow> s \<noteq> []"
  using bare_rx_empty by (auto simp: bare_identifier_fullmatch fullmatch_def)

lemma bare_identifier_no_newline:
  assumes "bare_identifier s"
  shows "NEWLINE \<notin> set s"
proof
  assume "NEWLINE \<in> set s"
  moreover have "list_all (consumes no_flags bare_rx) s"
    using assms by (rule bare_identifier_chars)
  ultimately have "consumes no_flags bare_rx NEWLINE" by (auto simp: list_all_iff)
  then show False by (simp add: not_consumed)
qed

subsection \<open>The pattern KEYWORD\<close>

lemma set_rem_Str:
  "set (rem fl (Str w) s) = {t. \<exists>u. s = u @ t \<and> list_all2 (lit_eq fl) w u}"
proof (induction w arbitrary: s)
  case Nil
  then show ?case by auto
next
  case (Cons c w)
  show ?case
  proof (intro set_eqI iffI)
    fix t assume "t \<in> set (rem fl (Str (c # w)) s)"
    then obtain x m where "s = x # m" "lit_eq fl c x" "t \<in> set (rem fl (Str w) m)"
      by (auto simp: set_rem_Lit)
    then obtain u where "m = u @ t" "list_all2 (lit_eq fl) w u"
      using Cons.IH by auto
    with \<open>s = x # m\<close> \<open>lit_eq fl c x\<close>
    have "s = (x # u) @ t \<and> list_all2 (lit_eq fl) (c # w) (x # u)" by simp
    then show "t \<in> {t. \<exists>u. s = u @ t \<and> list_all2 (lit_eq fl) (c # w) u}" by blast
  next
    fix t assume "t \<in> {t. \<exists>u. s = u @ t \<and> list_all2 (lit_eq fl) (c # w) u}"
    then obtain u where u: "s = u @ t" "list_all2 (lit_eq fl) (c # w) u" by blast
    then obtain x v where v: "u = x # v" "lit_eq fl c x" "list_all2 (lit_eq fl) w v"
      by (auto simp: list_all2_Cons1)
    then have "t \<in> set (rem fl (Str w) (v @ t))" using Cons.IH by auto
    with u v show "t \<in> set (rem fl (Str (c # w)) s)" by (auto simp: set_rem_Lit)
  qed
qed

lemma list_all2_lit_eq_ignorecase:
  "list_all2 (lit_eq IGNORECASE) w u \<longleftrightarrow> map lower u = map lower w"
proof (induction w arbitrary: u)
  case Nil
  then show ?case by auto
next
  case (Cons c w)
  then show ?case by (cases u) (auto simp: lit_eq_def IGNORECASE_def)
qed

lemma set_rem_keyword_rx:
  "t \<in> set (rem IGNORECASE keyword_rx s)
   \<longleftrightarrow> (\<exists>u. s = u @ t \<and> map lower u \<in> set reserved_words)"
proof -
  have word: "\<And>w. t \<in> set (rem IGNORECASE (Str w) s)
                  \<longleftrightarrow> (\<exists>u. s = u @ t \<and> map lower u = map lower w)"
    by (simp add: set_rem_Str list_all2_lit_eq_ignorecase)
  have low: "map lower ''node'' = ''node''" "map lower ''edge'' = ''edge''"
    "map lower ''graph'' = ''graph''" "map lower ''digraph'' = ''digraph''"
    "map lower ''subgraph'' = ''subgraph''" "map lower ''strict'' = ''strict''"
    by (simp_all add: lower_def)
  show ?thesis
    unfolding keyword_rx_def rem.simps(7) set_append Un_iff word low reserved_words_def by auto
qed

lemma dot_keyword_iff:
  "dot_keyword s \<longleftrightarrow> reserved_word s \<or> (\<exists>u. s = u @ [NEWLINE] \<and> reserved_word u)"
  unfolding dot_keyword_def KEYWORD_def re_match_Dollar reserved_word_def
  by (auto simp: set_rem_keyword_rx at_dollar_def)

lemma reserved_word_dot_keyword: "reserved_word s \<Longrightarrow> dot_keyword s"
  by (simp add: dot_keyword_iff)

subsection \<open>The pattern HTML_STRING\<close>

lemma star_dot_suffix: "t \<in> set (rem DOTALL (Star Dot) (u @ t))"
proof (induction u)
  case Nil
  show ?case by (simp add: set_rem_Star[of _ _ t])
next
  case (Cons x u)
  have "u @ t \<in> set (rem DOTALL Dot ((x # u) @ t))"
    by (simp add: dot_has_def DOTALL_def)
  with Cons show ?case by (subst set_rem_Star) auto
qed

lemma html_like_split:
  assumes "html_like s"
  shows "\<exists>m. s = CHR ''<'' # m @ [CHR ''>'']"
proof -
  from assms obtain t where t: "s = CHR ''<'' # t" "last s = CHR ''>''"
    by (cases s) (auto simp: html_like_def)
  then have ne: "t \<noteq> []" by auto
  with t have "last t = CHR ''>''" by simp
  with ne have "t = butlast t @ [CHR ''>'']" using append_butlast_last_id[of t] by simp
  with t have "s = CHR ''<'' # butlast t @ [CHR ''>'']" by simp
  then show ?thesis by blast
qed

lemma html_like_html:
  assumes "html_like s"
  shows "html s"
proof -
  from assms obtain m where s: "s = CHR ''<'' # m @ [CHR ''>'']" using html_like_split by blast
  have a: "m @ [CHR ''>''] \<in> set (rem DOTALL (Lit (CHR ''<'')) s)"
    by (simp add: s lit_eq_def DOTALL_def)
  have b: "[CHR ''>''] \<in> set (rem DOTALL (Star Dot) (m @ [CHR ''>'']))"
    by (rule star_dot_suffix)
  have c: "[] \<in> set (rem DOTALL (Seq (Lit (CHR ''>'')) Dollar) [CHR ''>''])"
    by (simp add: lit_eq_def DOTALL_def at_dollar_def)
  have "[] \<in> set (rem DOTALL HTML_STRING s)"
    unfolding HTML_STRING_def using a b c by (auto simp del: rem.simps(2))
  then show "html s" by (auto simp: html_def re_match_def)
qed

lemma html_first: "html s \<Longrightarrow> s \<noteq> [] \<and> hd s = CHR ''<''"
  by (auto simp: html_def re_match_def HTML_STRING_def lit_eq_def DOTALL_def
           split: list.splits if_splits)

lemma html_no_newline:
  assumes "html s" and "last s \<noteq> NEWLINE"
  shows "html_like s"
proof -
  from assms(1) obtain x r where s: "s = x # r" "x = CHR ''<''"
    and "\<exists>t \<in> set (rem DOTALL (Star Dot) r). \<exists>v \<in> set (rem DOTALL (Lit (CHR ''>'')) t). at_dollar v"
    by (auto simp: html_def re_match_def HTML_STRING_def lit_eq_def DOTALL_def
           split: list.splits if_splits)
  then obtain t v where t: "t \<in> set (rem DOTALL (Star Dot) r)"
    and v: "t = CHR ''>'' # v" "at_dollar v"
    by (auto simp: set_rem_Lit lit_eq_def DOTALL_def)
  from rem_consumed[OF t] obtain u where "r = u @ t" by blast
  with s v have "s = CHR ''<'' # u @ CHR ''>'' # v" by simp
  with v(2) assms(2) show ?thesis by (auto simp: at_dollar_def html_like_def)
qed

lemma bare_identifier_not_html:
  assumes "bare_identifier s"
  shows "\<not> html s"
proof
  assume "html s"
  then have "s \<noteq> []" "hd s = CHR ''<''" using html_first by auto
  moreover have "list_all (consumes no_flags bare_rx) s"
    using assms by (rule bare_identifier_chars)
  ultimately have "consumes no_flags bare_rx (CHR ''<'')" by (cases s) auto
  then show False by (simp add: not_consumed)
qed

section \<open>Escaping and its inverse\<close>

lemma replace_dquote_escaped: "replace_dquote s = escaped s"
  by (induction s) (simp_all add: escaped_def)

lemma escaped_Cons:
  "escaped (c # s) = (if c = DQUOTE then BACKSLASH # DQUOTE # escaped s else c # escaped s)"
  by (simp add: escaped_def)

lemma escaped_not_dquote: "escaped s \<noteq> DQUOTE # r"
  by (cases s) (auto simp: escaped_def)

lemma unescape_escaped: "unescape (escaped s) = s"
proof (induction s)
  case Nil
  show ?case by (simp add: escaped_def)
next
  case (Cons c s)
  show ?case
  proof (cases "c = DQUOTE")
    case True
    with Cons show ?thesis by (simp add: escaped_Cons)
  next
    case False
    show ?thesis
    proof (cases "escaped s")
      case Nil
      with Cons False show ?thesis by (simp add: escaped_Cons)
    next
      case (Cons d r)
      with escaped_not_dquote[of s r] have "d \<noteq> DQUOTE" by auto
      with Cons Cons.IH False show ?thesis by (simp add: escaped_Cons)
    qed
  qed
qed

lemma reparse_dquoted: "reparse (dquoted s) = Some s"
  by (simp add: reparse_def quoted_form_def dquoted_def unescape_escaped butlast_append)

lemma reparse_other:
  "s \<noteq> [] \<Longrightarrow> hd s \<noteq> DQUOTE \<Longrightarrow>
   reparse s = (if bare_identifier s \<or> html_like s then Some s else None)"
  by (simp add: reparse_def quoted_form_def)

section \<open>Properties of quote\<close>

lemma quote_eq:
  "quote s = (if html s then s else if \<not> valid_id s \<or> dot_keyword s then dquoted s else s)"
  by (simp add: quote_def dquoted_def replace_dquote_escaped)

lemma quote_empty_string: "quote [] = [DQUOTE, DQUOTE] \<and> quote [] = dquoted []"
  by code_simp

text \<open>
  C4. Every string that matches \<^verbatim>\<open>[A-Za-z_][A-Za-z0-9_]*\<close> or the numeral grammar
  \<^verbatim>\<open>-?(\.\d+|\d+(\.\d*)?)\<close> and is not, whatever the case of its letters, one of the
  reserved words node, edge, graph, digraph, subgraph, strict is returned by \<open>quote\<close>
  unmodified.
\<close>

theorem quote_bare_identifier:
  assumes "bare_identifier s" and "\<not> reserved_word s"
  shows "quote s = s"
proof -
  have "\<not> html s" using assms(1) by (rule bare_identifier_not_html)
  moreover have "valid_id s" using assms(1) by (rule bare_identifier_valid_id)
  moreover have "\<not> dot_keyword s"
  proof
    assume "dot_keyword s"
    with assms(2) obtain u where "s = u @ [NEWLINE]" by (auto simp: dot_keyword_iff)
    then have "NEWLINE \<in> set s" by simp
    with bare_identifier_no_newline[OF assms(1)] show False by simp
  qed
  ultimately show ?thesis by (simp add: quote_eq)
qed

text \<open>The examples of the claim: \<^verbatim>\<open>quote('-4.2')\<close>, \<^verbatim>\<open>quote('.42')\<close> and \<^verbatim>\<open>quote('spam')\<close>.\<close>

theorem quote_bare_identifier_witness:
  "bare_identifier ''-4.2'' \<and> \<not> reserved_word ''-4.2'' \<and> quote ''-4.2'' = ''-4.2'' \<and>
   bare_identifier ''.42'' \<and> \<not> reserved_word ''.42'' \<and> quote ''.42'' = ''.42'' \<and>
   bare_identifier ''spam'' \<and> \<not> reserved_word ''spam'' \<and> quote ''spam'' = ''spam''"
proof -
  have a: "bare_identifier ''-4.2''" "\<not> reserved_word ''-4.2''" by code_simp+
  have b: "bare_identifier ''.42''" "\<not> reserved_word ''.42''" by code_simp+
  have c: "bare_identifier ''spam''" "\<not> reserved_word ''spam''" by code_simp+
  show ?thesis
    using a b c quote_bare_identifier[OF a] quote_bare_identifier[OF b] quote_bare_identifier[OF c]
    by simp
qed

text \<open>
  C5. Every string that starts with \<^verbatim>\<open><\<close> and ends with \<^verbatim>\<open>>\<close>, whatever is in between
  (newlines, spaces and double quotes included), is returned by \<open>quote\<close> unmodified.
\<close>

theorem quote_html_like:
  assumes "html_like s"
  shows "quote s = s"
  using html_like_html[OF assms] by (simp add: quote_eq)

theorem quote_html_like_witness:
  "html_like ''<<b>spam</b>>'' \<and> quote ''<<b>spam</b>>'' = ''<<b>spam</b>>'' \<and>
   html_like (''<a b'' @ [NEWLINE, DQUOTE] @ ''>'') \<and>
   quote (''<a b'' @ [NEWLINE, DQUOTE] @ ''>'') = ''<a b'' @ [NEWLINE, DQUOTE] @ ''>''"
proof -
  have a: "html_like ''<<b>spam</b>>''" by (simp add: html_like_def)
  have b: "html_like (''<a b'' @ [NEWLINE, DQUOTE] @ ''>'')" by (simp add: html_like_def)
  show ?thesis using a b quote_html_like[OF a] quote_html_like[OF b] by simp
qed

text \<open>
  Every other string is wrapped in double quotes, its double quotes escaped, as long as
  it does not end in a newline.
\<close>

lemma quote_wraps_no_newline:
  assumes "s = [] \<or> last s \<noteq> NEWLINE"
    and "\<not> html_like s"
    and "\<not> bare_identifier s \<or> reserved_word s"
  shows "quote s = dquoted s"
proof -
  have nh: "\<not> html s"
  proof
    assume h: "html s"
    then have "s \<noteq> []" using html_first by simp
    with assms(1) have "last s \<noteq> NEWLINE" by simp
    with h assms(2) show False using html_no_newline by blast
  qed
  have "\<not> valid_id s \<or> dot_keyword s"
  proof (cases "reserved_word s")
    case True
    then show ?thesis by (simp add: reserved_word_dot_keyword)
  next
    case False
    with assms(3) have nb: "\<not> bare_identifier s" by simp
    have "\<not> valid_id s"
    proof
      assume v: "valid_id s"
      then have "s \<noteq> []" using valid_id_first by simp
      with assms(1) have "last s \<noteq> NEWLINE" by simp
      with v nb show False using valid_id_no_newline by blast
    qed
    then show ?thesis by simp
  qed
  with nh show ?thesis by (simp add: quote_eq)
qed

text \<open>
  C1. A string that does not both start with \<^verbatim>\<open><\<close> and end with \<^verbatim>\<open>>\<close>, and that fails the
  bare-identifier and numeral grammar or is a reserved word, is to be returned wrapped in
  double quotes with its double quotes escaped. The string \<^verbatim>\<open>'spam\n'\<close> is such a string:
  it fails the grammar because of its newline. But \<^verbatim>\<open>$\<close> in the pattern \<open>ID\<close> also matches
  just before a newline that ends the string, so \<open>quote\<close> takes the string for a valid
  identifier and returns it as it is, newline included. The same happens to
  \<^verbatim>\<open>'<b>\n'\<close> through \<^verbatim>\<open>$\<close> in \<open>HTML_STRING\<close>.
\<close>

theorem quote_trailing_newline:
  "\<not> html_like (''spam'' @ [NEWLINE]) \<and> \<not> bare_identifier (''spam'' @ [NEWLINE]) \<and>
   quote (''spam'' @ [NEWLINE]) = ''spam'' @ [NEWLINE] \<and>
   quote (''spam'' @ [NEWLINE]) \<noteq> dquoted (''spam'' @ [NEWLINE]) \<and>
   \<not> html_like (''<b>'' @ [NEWLINE]) \<and> \<not> bare_identifier (''<b>'' @ [NEWLINE]) \<and>
   quote (''<b>'' @ [NEWLINE]) = ''<b>'' @ [NEWLINE]"
  by code_simp

theorem quote_trailing_newline_witness:
  "quote (''spam'' @ [NEWLINE]) \<noteq> [DQUOTE] @ ''spam'' @ [NEWLINE] @ [DQUOTE]"
  using quote_trailing_newline by simp

text \<open>
  Re-parsing what \<open>quote\<close> returns gives the string back, as long as the string does
  not end in a newline.
\<close>

lemma quote_roundtrip_no_newline:
  assumes "s = [] \<or> last s \<noteq> NEWLINE"
  shows "reparse (quote s) = Some s"
proof (cases "html s")
  case True
  then have ne: "s \<noteq> []" "hd s \<noteq> DQUOTE" using html_first by auto
  with assms have "last s \<noteq> NEWLINE" by simp
  with True have "html_like s" by (rule html_no_newline)
  with True ne show ?thesis by (simp add: quote_eq reparse_other)
next
  case False
  show ?thesis
  proof (cases "\<not> valid_id s \<or> dot_keyword s")
    case True
    with False show ?thesis by (simp add: quote_eq reparse_dquoted)
  next
    case no: False
    then have v: "valid_id s" by simp
    from valid_id_first[OF this] have ne: "s \<noteq> []" "hd s \<noteq> DQUOTE"
      using not_consumed(1) by auto
    with assms have "last s \<noteq> NEWLINE" by simp
    with v have "bare_identifier s" by (rule valid_id_no_newline)
    with False no ne show ?thesis by (simp add: quote_eq reparse_other)
  qed
qed

text \<open>
  C6. Re-parsing \<open>quote s\<close> by the rules of the target grammar (a quoted form: strip the
  surrounding double quotes and undo the escaping of the double quotes inside; a bare
  identifier, a numeral, an HTML-like label: the token as it is) is to yield \<open>s\<close>, for
  every string \<open>s\<close>. For \<^verbatim>\<open>'spam\n'\<close> and \<^verbatim>\<open>'<b>\n'\<close> it does not: \<open>quote\<close> returns them
  unquoted, and with the newline they are no token of any of these forms.
\<close>

theorem quote_roundtrip_newline:
  "quote (''spam'' @ [NEWLINE]) = ''spam'' @ [NEWLINE] \<and>
   reparse (quote (''spam'' @ [NEWLINE])) = None \<and>
   quote (''<b>'' @ [NEWLINE]) = ''<b>'' @ [NEWLINE] \<and>
   reparse (quote (''<b>'' @ [NEWLINE])) = None"
  by code_simp

theorem quote_roundtrip_newline_witness:
  "reparse (quote (''spam'' @ [NEWLINE])) \<noteq> Some (''spam'' @ [NEWLINE])"
proof -
  from quote_roundtrip_newline have "reparse (quote (''spam'' @ [NEWLINE])) = None"
    by (elim conjE)
  then show ?thesis by simp
qed

section \<open>Properties of quote_edge\<close>

lemma partition_none: "c \<notin> set s \<Longrightarrow> partition c s = (s, [], [])"
  by (induction s) auto

lemma partition_found: "c \<notin> set a \<Longrightarrow> partition c (a @ c # b) = (a, [c], b)"
  by (induction a) auto

lemma quote_edge_node:
  assumes "CHR '':'' \<notin> set s"
  shows "quote_edge s = quote s"
  using assms by (simp add: quote_edge_def partition_none)

lemma quote_edge_node_colon:
  assumes "CHR '':'' \<notin> set node"
  shows "quote_edge (node @ '':'') = quote node"
  using partition_found[OF assms, of "[]"] by (simp add: quote_edge_def)

lemma quote_edge_node_port:
  assumes "CHR '':'' \<notin> set node" and "CHR '':'' \<notin> set port" and "port \<noteq> []"
  shows "quote_edge (node @ '':'' @ port) = quote node @ '':'' @ quote port"
  using partition_found[OF assms(1), of port] partition_none[OF assms(2)] assms(3)
  by (simp add: quote_edge_def)

lemma quote_edge_three:
  assumes "CHR '':'' \<notin> set node" and "CHR '':'' \<notin> set port"
  shows "quote_edge (node @ '':'' @ port @ '':'' @ compass) =
           quote node @ '':'' @ quote port @ (if compass = [] then [] else '':'' @ compass)"
  using partition_found[OF assms(1), of "port @ '':'' @ compass"]
        partition_found[OF assms(2), of compass]
  by (simp add: quote_edge_def)

text \<open>
  A string with at least two colons is a node and a port without colon and a compass,
  with a colon after the node and a colon after the port.
\<close>

lemma two_colons_split:
  assumes "2 \<le> count_list s (CHR '':'')"
  shows "\<exists>node port compass. s = node @ '':'' @ port @ '':'' @ compass \<and>
           CHR '':'' \<notin> set node \<and> CHR '':'' \<notin> set port"
proof -
  from assms have "CHR '':'' \<in> set s" using count_list_0_iff[of s "CHR '':''"] by auto
  then obtain node r where s: "s = node @ CHR '':'' # r" and n: "CHR '':'' \<notin> set node"
    by (auto dest: split_list_first)
  from n have "count_list node (CHR '':'') = 0" by (simp add: count_list_0_iff)
  with assms s have "1 \<le> count_list r (CHR '':'')" by simp
  then have "CHR '':'' \<in> set r" using count_list_0_iff[of r "CHR '':''"] by auto
  then obtain port compass where r: "r = port @ CHR '':'' # compass" and p: "CHR '':'' \<notin> set port"
    by (auto dest: split_list_first)
  from s r have "s = node @ '':'' @ port @ '':'' @ compass" by simp
  with n p show ?thesis by blast
qed

text \<open>
  C7. \<open>quote_edge\<close> is never to emit a trailing empty component as two double quotes.
  It does for an input that ends in two colons: the remainder after the first colon is
  the second colon, which is not empty, so the port, empty, is quoted and appended; only
  the compass, empty as well, is left out.
\<close>

theorem quote_edge_double_colon_counterexample:
  "partition (CHR '':'') ''a::'' = (''a'', '':'', '':'') \<and>
   partition (CHR '':'') '':'' = ([], '':'', []) \<and>
   quote_edge ''a::'' = ''a:'' @ [DQUOTE, DQUOTE]"
  by code_simp

text \<open>
  C7, amended. An empty remainder after the first colon and an empty compass are not
  emitted: an input without colon gives \<open>quote\<close> of the whole input; an input that
  ends in its first colon gives only the quoted node, with no port; and when what follows
  the second colon (the compass) is empty, no compass is appended. The port is emitted
  whenever the remainder after the first colon is not empty, an empty port as two double
  quotes, also before an empty compass: a node and a port that is not empty give the
  quoted node, a colon and the quoted port; a node, a port and a compass give the quoted
  node, a colon, the quoted port and, unless the compass is empty, a colon and the
  compass.
\<close>

theorem quote_edge_trailing_empty:
  "(CHR '':'' \<notin> set s \<longrightarrow> quote_edge s = quote s) \<and>
   (CHR '':'' \<notin> set node \<longrightarrow> quote_edge (node @ '':'') = quote node) \<and>
   (CHR '':'' \<notin> set node \<and> CHR '':'' \<notin> set port \<longrightarrow>
      quote_edge (node @ '':'' @ port @ '':'') = quote node @ '':'' @ quote port) \<and>
   (CHR '':'' \<notin> set node \<longrightarrow>
      quote_edge (node @ ''::'') = quote node @ '':'' @ [DQUOTE, DQUOTE]) \<and>
   (CHR '':'' \<notin> set node \<and> CHR '':'' \<notin> set port \<and> port \<noteq> [] \<longrightarrow>
      quote_edge (node @ '':'' @ port) = quote node @ '':'' @ quote port) \<and>
   (CHR '':'' \<notin> set node \<and> CHR '':'' \<notin> set port \<longrightarrow>
      quote_edge (node @ '':'' @ port @ '':'' @ compass) =
        quote node @ '':'' @ quote port @ (if compass = [] then [] else '':'' @ compass))"
proof (intro conjI impI)
  show "quote_edge s = quote s" if "CHR '':'' \<notin> set s"
    using that by (rule quote_edge_node)
  show "quote_edge (node @ '':'') = quote node" if "CHR '':'' \<notin> set node"
    using that by (rule quote_edge_node_colon)
  show "quote_edge (node @ '':'' @ port @ '':'') = quote node @ '':'' @ quote port"
    if "CHR '':'' \<notin> set node \<and> CHR '':'' \<notin> set port"
    using that quote_edge_three[of node port "[]"] by simp
  show "quote_edge (node @ ''::'') = quote node @ '':'' @ [DQUOTE, DQUOTE]"
    if "CHR '':'' \<notin> set node"
    using that quote_edge_three[of node "[]" "[]"] quote_empty_string by simp
  show "quote_edge (node @ '':'' @ port) = quote node @ '':'' @ quote port"
    if "CHR '':'' \<notin> set node \<and> CHR '':'' \<notin> set port \<and> port \<noteq> []"
    using that quote_edge_node_port[of node port] by simp
  show "quote_edge (node @ '':'' @ port @ '':'' @ compass) =
          quote node @ '':'' @ quote port @ (if compass = [] then [] else '':'' @ compass)"
    if "CHR '':'' \<notin> set node \<and> CHR '':'' \<notin> set port"
    using that quote_edge_three[of node port compass] by simp
qed

theorem quote_edge_trailing_empty_witness:
  "quote_edge ''spam'' = ''spam'' \<and> quote_edge ''spam spam'' = [DQUOTE] @ ''spam spam'' @ [DQUOTE] \<and>
   quote_edge ''spam:'' = ''spam'' \<and> quote_edge ''spam:eggs:'' = ''spam:eggs'' \<and>
   quote_edge ''spam::'' = ''spam:'' @ [DQUOTE, DQUOTE] \<and>
   quote_edge ''spam:eggs'' = ''spam:eggs'' \<and>
   quote_edge ''spam spam:eggs eggs'' =
     [DQUOTE] @ ''spam spam'' @ [DQUOTE] @ '':'' @ [DQUOTE] @ ''eggs eggs'' @ [DQUOTE] \<and>
   quote_edge ''spam:eggs:s'' = ''spam:eggs:s'' \<and>
   quote_edge ''spam::s'' = ''spam:'' @ [DQUOTE, DQUOTE] @ '':s''"
proof -
  have q: "quote ''spam'' = ''spam''" "quote ''eggs'' = ''eggs''"
    "quote ''spam spam'' = [DQUOTE] @ ''spam spam'' @ [DQUOTE]"
    "quote ''eggs eggs'' = [DQUOTE] @ ''eggs eggs'' @ [DQUOTE]"
    "quote [] = [DQUOTE, DQUOTE]"
    by code_simp+
  show ?thesis
    using quote_edge_trailing_empty[of "''spam''" "''spam''" "''eggs''" "''s''"]
          quote_edge_trailing_empty[of "''spam spam''" "''spam spam''" "''eggs eggs''" "[]"]
          quote_edge_trailing_empty[of "''spam''" "''spam''" "[]" "''s''"] q
    by simp
qed

text \<open>
  C9. For an input \<open>node\<close>, two colons and a compass that is not empty, the empty port is
  emitted as the quoted empty string: the result is the quoted node, a colon, two double
  quotes, a colon and the compass.
\<close>

theorem quote_edge_empty_port:
  assumes "CHR '':'' \<notin> set node" and "compass \<noteq> []"
  shows "quote_edge (node @ ''::'' @ compass) =
           quote node @ '':'' @ [DQUOTE, DQUOTE] @ '':'' @ compass"
  using quote_edge_three[OF assms(1), of "[]" compass] assms(2) quote_empty_string by simp

theorem quote_edge_empty_port_witness:
  "quote_edge ''a::n'' = ''a:'' @ [DQUOTE, DQUOTE] @ '':n''"
proof -
  have "quote ''a'' = ''a''" by code_simp
  then show ?thesis using quote_edge_empty_port[of "''a''" "''n''"] by simp
qed

text \<open>
  C10. For an input with at least two colons, what follows the second colon is emitted as
  it is, after the quoted node and the quoted port: it is not quoted, not escaped and not
  split again, whatever it contains.
\<close>

theorem quote_edge_compass_verbatim:
  assumes "CHR '':'' \<notin> set node" and "CHR '':'' \<notin> set port"
  shows "quote_edge (node @ '':'' @ port @ '':'' @ compass) =
           quote node @ '':'' @ quote port @ (if compass = [] then [] else '':'' @ compass)"
  using assms by (rule quote_edge_three)

text \<open>The examples of the claim, and a compass with a double quote.\<close>

theorem quote_edge_compass_verbatim_witness:
  "quote_edge ''a:b:c:d'' = ''a:b:c:d'' \<and> quote_edge ''a:b:c d'' = ''a:b:c d'' \<and>
   quote_edge (''a:b:c'' @ [DQUOTE] @ ''d'') = ''a:b:c'' @ [DQUOTE] @ ''d''"
proof -
  have q: "quote ''a'' = ''a''" "quote ''b'' = ''b''" by code_simp+
  show ?thesis
    using quote_edge_compass_verbatim[of "''a''" "''b''" "''c:d''"]
          quote_edge_compass_verbatim[of "''a''" "''b''" "''c'' @ '' d''"]
          quote_edge_compass_verbatim[of "''a''" "''b''" "''c'' @ [DQUOTE] @ ''d''"] q
    by simp
qed

section \<open>Properties of a_list and attr_list\<close>



text \<open>
  C2. \<^verbatim>\<open>a_list('spam', {'spam': None, 'ham': 'ham ham', 'eggs': ''})\<close> is
  \<^verbatim>\<open>label=spam eggs="" ham="ham ham"\<close>: the label first, the entry with value \<^verbatim>\<open>None\<close>
  dropped, the entry with the empty string emitted with two double quotes, the entries in
  the order of their keys, single spaces between the tokens.
\<close>

theorem a_list_example:
  "a_list (Some ''spam'') (Some [(''spam'', None), (''ham'', Some ''ham ham''), (''eggs'', Some [])]) None
     = ''label=spam eggs='' @ [DQUOTE, DQUOTE] @ '' ham='' @ [DQUOTE] @ ''ham ham'' @ [DQUOTE]"
  by code_simp

text \<open>
  C3. \<open>attr_list\<close> is the empty string when \<open>a_list\<close> of the same arguments is, and
  otherwise a space, an opening bracket, the result of \<open>a_list\<close> and a closing bracket;
  without arguments it is the empty string.
\<close>

theorem attr_list_wraps:
  "attr_list label kwargs attributes =
     (if a_list label kwargs attributes = [] then []
      else '' ['' @ a_list label kwargs attributes @ '']'') \<and>
   attr_list None None None = []"
  by (simp add: attr_list_def a_list_def)



end
